theory Spec2Isabelle
  imports
    Complex_Main
    "HOL-Library.Log_Nat"
    "HOL-Library.Char_ord"
    "HOL-Library.List_Lexorder"
begin

section \<open>Conventions\<close>

text \<open>
  A shallow embedding of the file discovery, batching and output-path logic of
  \<^verbatim>\<open>src/file_processor.py\<close> and of the formatters of \<^verbatim>\<open>src/formatters.py\<close>.

  \<^item> A Python \<open>str\<close> is a \<open>string\<close>; a \<open>char\<close> stands for the code point of the same
    number, so the model covers the strings of code points below 256.
  \<^item> A function that can raise returns \<open>py_error + 'a\<close>, with \<open>Inl\<close> for the exception.
  \<^item> A method whose Python name starts with an underscore keeps its name without it.
\<close>

datatype py_error =
    ValueError string
  | TypeError
  | AttributeError
  | OverflowError

section \<open>Strings and paths\<close>

subsection \<open>The string methods the code calls\<close>

text \<open>\<open>s.split(c)\<close> for a one-character separator: \<open>''''.split(c)\<close> is \<open>['''']\<close>.\<close>

fun split_sep :: "char \<Rightarrow> string \<Rightarrow> string list" where
  "split_sep c [] = [[]]"
| "split_sep c (x # xs) =
     (if x = c then [] # split_sep c xs
      else (case split_sep c xs of
              [] \<Rightarrow> [[x]]
            | y # ys \<Rightarrow> (x # y) # ys))"

text \<open>\<open>s.rfind(c)\<close>: the index of the last occurrence of \<open>c\<close>, or \<open>-1\<close>.\<close>

definition rfind :: "char \<Rightarrow> string \<Rightarrow> int" where
  "rfind c s =
     (if c \<in> set s
      then int (length s) - 1 - int (length (takeWhile (\<lambda>x. x \<noteq> c) (rev s)))
      else - 1)"

text \<open>
  \<open>s.lower()\<close> on code points below 256: the ASCII capitals and the Latin-1 capitals
  (192 to 222 without the multiplication sign 215) move up by 32.
\<close>

definition lower_char :: "char \<Rightarrow> char" where
  "lower_char c =
     (let n = (of_char c :: nat)
      in if (65 \<le> n \<and> n \<le> 90) \<or> (192 \<le> n \<and> n \<le> 222 \<and> n \<noteq> 215)
         then char_of (n + 32) else c)"

definition lower :: "string \<Rightarrow> string" where
  "lower s = map lower_char s"

subsection \<open>pathlib paths (POSIX flavour)\<close>

text \<open>
  A \<open>Path\<close> is its anchor (\<open>''''\<close>, \<open>''/''\<close> or \<open>''//''\<close>) and the list of its components.
  \<open>parse_path\<close> is the constructor \<open>Path(s)\<close>: \<open>posixpath.splitroot\<close> for the anchor,
  then the components between slashes that are neither empty nor \<open>''.''\<close>.
\<close>

datatype path = Path (anchor: string) (parts: "string list")

definition splitroot_anchor :: "string \<Rightarrow> string" where
  "splitroot_anchor s =
     (if take 1 s \<noteq> ''/'' then ''''
      else if take 1 (drop 1 s) \<noteq> ''/'' \<or> take 1 (drop 2 s) = ''/'' then ''/''
      else ''//'')"

definition parse_parts :: "string \<Rightarrow> string list" where
  "parse_parts s = filter (\<lambda>x. x \<noteq> [] \<and> x \<noteq> ''.'') (split_sep (CHR ''/'') s)"

definition parse_path :: "string \<Rightarrow> path" where
  "parse_path s = Path (splitroot_anchor s) (parse_parts s)"

text \<open>\<open>p / s\<close> for a string \<open>s\<close>: an absolute \<open>s\<close> replaces \<open>p\<close>, a relative one extends it.\<close>

definition path_join :: "path \<Rightarrow> string \<Rightarrow> path" where
  "path_join p s =
     (if take 1 s = ''/'' then parse_path s
      else Path (anchor p) (parts p @ parse_parts s))"

text \<open>\<open>str(p)\<close>.\<close>

fun intercalate :: "string \<Rightarrow> string list \<Rightarrow> string" where
  "intercalate sep [] = []"
| "intercalate sep [x] = x"
| "intercalate sep (x # y # ys) = x @ sep @ intercalate sep (y # ys)"

definition path_str :: "path \<Rightarrow> string" where
  "path_str p =
     (if anchor p = [] \<and> parts p = [] then ''.''
      else anchor p @ intercalate ''/'' (parts p))"

text \<open>
  \<open>p.name\<close>, \<open>p.suffix\<close>, \<open>p.stem\<close> and \<open>p.parent\<close>. The suffix starts at the last dot of the
  name, unless that dot is the first or the last character of the name.
\<close>

definition name :: "path \<Rightarrow> string" where
  "name p = (if parts p = [] then [] else last (parts p))"

definition suffix :: "path \<Rightarrow> string" where
  "suffix p =
     (let n = name p; i = rfind (CHR ''.'') n
      in if 0 < i \<and> i < int (length n) - 1 then drop (nat i) n else [])"

definition stem :: "path \<Rightarrow> string" where
  "stem p =
     (let n = name p; i = rfind (CHR ''.'') n
      in if 0 < i \<and> i < int (length n) - 1 then take (nat i) n else n)"

definition parent :: "path \<Rightarrow> path" where
  "parent p = (if parts p = [] then p else Path (anchor p) (butlast (parts p)))"

text \<open>
  Paths compare as the lists of their components, each component by code points
  (\<open>PurePath.__lt__\<close>); \<open>path_key\<close> is the list compared.
\<close>

definition path_key :: "path \<Rightarrow> string list" where
  "path_key p = anchor p # parts p"

section \<open>config.py\<close>

text \<open>
  The fields of \<open>TranscriptionConfig\<close> that \<^verbatim>\<open>file_processor.py\<close> reads. An \<open>Optional[Path]\<close>
  field is a \<open>path option\<close>; a set path is always truthy. Pydantic keeps \<open>batch_size\<close> at 1
  or more (\<open>Field(default=1, ge=1)\<close>, \<open>validate_assignment=True\<close>).
\<close>

record TranscriptionConfig =
  batch_size :: int
  audio_file :: "path option"
  audio_folder :: "path option"
  transcribe_folder :: "path option"
  transcription_file :: "path option"
  recursive :: bool

definition supported_extensions :: "string set" where
  "supported_extensions =
     {''.mp3'', ''.wav'', ''.m4a'', ''.flac'', ''.ogg'', ''.wma'', ''.aac'', ''.mp4'',
      ''.mkv'', ''.avi''}"

section \<open>file\_processor.py\<close>

subsection \<open>Discovery\<close>

text \<open>
  The directory tree under the folder that is searched. \<open>RegularFile\<close> is an entry for which
  \<open>is_file()\<close> holds (a file, or a link to one); \<open>Directory\<close> is a directory with its
  entries in the order the system lists them; \<open>Other\<close> is anything else (a link to a
  directory, which \<open>glob\<close> does not descend into, a socket, a broken link).
\<close>

datatype node = RegularFile | Other | Directory "entry list"
  and entry = Entry string node

definition make_child_relpath :: "path \<Rightarrow> string \<Rightarrow> path" where
  "make_child_relpath d n = Path (anchor d) (parts d @ [n])"

text \<open>
  \<open>folder.glob("*")\<close> yields the immediate children, \<open>folder.glob("**/*")\<close> every descendant.
  Each path comes with the node it names, for \<open>is_file()\<close>.
\<close>

fun glob_star :: "path \<Rightarrow> entry list \<Rightarrow> (path \<times> node) list" where
  "glob_star d [] = []"
| "glob_star d (Entry n x # es) = (make_child_relpath d n, x) # glob_star d es"

fun glob_rec :: "path \<Rightarrow> entry list \<Rightarrow> (path \<times> node) list" where
  "glob_rec d [] = []"
| "glob_rec d (Entry n x # es) =
     (make_child_relpath d n, x)
     # (case x of Directory sub \<Rightarrow> glob_rec (make_child_relpath d n) sub | _ \<Rightarrow> [])
     @ glob_rec d es"

definition glob :: "string \<Rightarrow> path \<Rightarrow> entry list \<Rightarrow> (path \<times> node) list" where
  "glob pattern d es = (if pattern = ''**/*'' then glob_rec d es else glob_star d es)"

definition is_file :: "node \<Rightarrow> bool" where
  "is_file x = (x = RegularFile)"

text \<open>
  \<^verbatim>\<open>
  def _is_audio_file(self, path):
      return path.suffix.lower() in self.config.supported_extensions
  \<close>
\<close>

definition is_audio_file :: "path \<Rightarrow> bool" where
  "is_audio_file p = (lower (suffix p) \<in> supported_extensions)"

text \<open>
  \<^verbatim>\<open>
  def _find_audio_files(self, folder):
      audio_files = []
      pattern = "**/*" if self.config.recursive else "*"
      for path in folder.glob(pattern):
          if path.is_file() and self._is_audio_file(path):
              audio_files.append(path)
      return sorted(audio_files)
  \<close>
  The third argument is the tree under \<open>folder\<close>.
\<close>

definition find_audio_files :: "TranscriptionConfig \<Rightarrow> path \<Rightarrow> entry list \<Rightarrow> path list" where
  "find_audio_files cfg folder tree =
     (let pattern = (if recursive cfg then ''**/*'' else ''*'');
          audio_files = map fst (filter (\<lambda>(p, x). is_file x \<and> is_audio_file p)
                                   (glob pattern folder tree))
      in sort_key path_key audio_files)"

text \<open>
  \<^verbatim>\<open>
  def discover_audio_files(self):
      if self.config.audio_file:
          return [self.config.audio_file]
      if self.config.audio_folder:
          return self._find_audio_files(self.config.audio_folder)
      raise ValueError("No audio source specified")
  \<close>
\<close>

definition discover_audio_files :: "TranscriptionConfig \<Rightarrow> entry list \<Rightarrow> py_error + path list" where
  "discover_audio_files cfg tree =
     (case audio_file cfg of
        Some f \<Rightarrow> Inr [f]
      | None \<Rightarrow>
          (case audio_folder cfg of
             Some d \<Rightarrow> Inr (find_audio_files cfg d tree)
           | None \<Rightarrow> Inl (ValueError ''No audio source specified'')))"

subsection \<open>Output paths\<close>

text \<open>
  \<^verbatim>\<open>
  def _get_extension_for_format(self, output_format):
      format_extensions = {'md': 'md', 'txt': 'txt', 'json': 'json', 'srt': 'srt', 'vtt': 'vtt'}
      return format_extensions.get(output_format, 'txt')
  \<close>
\<close>

definition format_extensions :: "(string \<times> string) list" where
  "format_extensions =
     [(''md'', ''md''), (''txt'', ''txt''), (''json'', ''json''), (''srt'', ''srt''),
      (''vtt'', ''vtt'')]"

definition get_extension_for_format :: "string \<Rightarrow> string" where
  "get_extension_for_format output_format =
     (case map_of format_extensions output_format of Some e \<Rightarrow> e | None \<Rightarrow> ''txt'')"

text \<open>
  \<^verbatim>\<open>
  def get_output_path(self, audio_path, output_format):
      if self.config.transcription_file and self.config.audio_file:
          return self.config.transcription_file
      base_name = audio_path.stem
      extension = self._get_extension_for_format(output_format)
      output_filename = f"{base_name}_transcription.{extension}"
      if self.config.transcribe_folder:
          return self.config.transcribe_folder / output_filename
      else:
          return audio_path.parent / output_filename
  \<close>
\<close>

definition get_output_path :: "TranscriptionConfig \<Rightarrow> path \<Rightarrow> string \<Rightarrow> path" where
  "get_output_path cfg audio_path output_format =
     (if transcription_file cfg \<noteq> None \<and> audio_file cfg \<noteq> None
      then the (transcription_file cfg)
      else
        let base_name = stem audio_path;
            extension = get_extension_for_format output_format;
            output_filename = base_name @ ''_transcription.'' @ extension
        in (case transcribe_folder cfg of
              Some d \<Rightarrow> path_join d output_filename
            | None \<Rightarrow> path_join (parent audio_path) output_filename))"

subsection \<open>Batching\<close>

text \<open>
  \<^verbatim>\<open>
  def batch_files(self, files):
      batch_size = self.config.batch_size
      for i in range(0, len(files), batch_size):
          yield files[i:i + batch_size]
  \<close>
  \<open>batch_loop\<close> is the \<open>for\<close> loop from index \<open>i\<close> on, for a positive step; the slice
  \<open>files[i:i + batch_size]\<close> is \<open>take batch_size (drop i files)\<close>. \<open>range\<close> raises
  \<open>ValueError\<close> for a zero step and is empty for a negative one (start 0, stop \<open>len(files)\<close>).
  The generator is modelled by the list of the groups it yields.
\<close>

function batch_loop :: "nat \<Rightarrow> nat \<Rightarrow> 'a list \<Rightarrow> 'a list list" where
  "batch_loop bs i files =
     (if 0 < bs \<and> i < length files
      then take bs (drop i files) # batch_loop bs (i + bs) files
      else [])"
  by pat_completeness auto
termination
  by (relation "measure (\<lambda>(bs, i, files). length files - i)") auto

declare batch_loop.simps [simp del]

definition batch_files :: "TranscriptionConfig \<Rightarrow> 'a list \<Rightarrow> py_error + 'a list list" where
  "batch_files cfg files =
     (if batch_size cfg = 0 then Inl (ValueError ''range() arg 3 must not be zero'')
      else if batch_size cfg < 0 then Inr []
      else Inr (batch_loop (nat (batch_size cfg)) 0 files))"

subsection \<open>What discovery is meant to return\<close>

text \<open>
  The specification of discovery, in its own words: \<open>contains tree rel x\<close> holds when the
  relative path \<open>rel\<close> (a non-empty list of names) leads from the searched folder to the
  entry \<open>x\<close>. An immediate child has a path of length 1. \<open>distinct_names\<close> is the invariant of
  a file system that the names within one directory differ.
\<close>

inductive contains :: "entry list \<Rightarrow> string list \<Rightarrow> node \<Rightarrow> bool" where
  child: "Entry n x \<in> set es \<Longrightarrow> contains es [n] x"
| descendant: "Entry n (Directory sub) \<in> set es \<Longrightarrow> contains sub rel x \<Longrightarrow> contains es (n # rel) x"

fun entry_name :: "entry \<Rightarrow> string" where
  "entry_name (Entry n x) = n"

fun distinct_names :: "entry list \<Rightarrow> bool" where
  "distinct_names [] = True"
| "distinct_names (Entry n x # es) =
     (n \<notin> entry_name ` set es
      \<and> (case x of Directory sub \<Rightarrow> distinct_names sub | _ \<Rightarrow> True)
      \<and> distinct_names es)"

section \<open>Example inputs\<close>

text \<open>
  A configuration with the folder \<open>/in\<close> as its audio source, and one with the single file
  \<open>/in/talk.mp3\<close>; the other fields are the arguments.
\<close>

abbreviation folder_config :: "int \<Rightarrow> bool \<Rightarrow> TranscriptionConfig" where
  "folder_config n r \<equiv>
     \<lparr>batch_size = n, audio_file = None, audio_folder = Some (Path ''/'' [''in'']),
      transcribe_folder = None, transcription_file = None, recursive = r\<rparr>"

abbreviation file_config :: "path option \<Rightarrow> path option \<Rightarrow> TranscriptionConfig" where
  "file_config out_dir out_file \<equiv>
     \<lparr>batch_size = 1, audio_file = Some (Path ''/'' [''in'', ''talk.mp3'']), audio_folder = None,
      transcribe_folder = out_dir, transcription_file = out_file, recursive = False\<rparr>"

text \<open>
  A folder holding \<open>c.txt\<close>, \<open>b.wav\<close>, the directory \<open>sub\<close> with \<open>d.m4a\<close> in it, and
  \<open>a.mp3\<close>, listed in that order; and the flat folder without \<open>sub\<close>.
\<close>

abbreviation nested_tree :: "entry list" where
  "nested_tree \<equiv>
     [Entry ''c.txt'' RegularFile, Entry ''b.wav'' RegularFile,
      Entry ''sub'' (Directory [Entry ''d.m4a'' RegularFile]), Entry ''a.mp3'' RegularFile]"

abbreviation flat_tree :: "entry list" where
  "flat_tree \<equiv>
     [Entry ''c.txt'' RegularFile, Entry ''b.wav'' RegularFile, Entry ''a.mp3'' RegularFile]"

section \<open>Properties of batching\<close>

lemma batch_loop_concat: "0 < bs \<Longrightarrow> concat (batch_loop bs i files) = drop i files"
proof (induction bs i files rule: batch_loop.induct)
  case (1 bs i files)
  show ?case
  proof (cases "i < length files")
    case True
    with 1 have "concat (batch_loop bs (i + bs) files) = drop (i + bs) files" by simp
    moreover have "take bs (drop i files) @ drop (i + bs) files = drop i files"
      by (metis add.commute append_take_drop_id drop_drop)
    ultimately show ?thesis
      using True 1(2) by (subst batch_loop.simps) simp
  next
    case False
    then show ?thesis by (subst batch_loop.simps) simp
  qed
qed

lemma batch_loop_length:
  "0 < bs \<Longrightarrow> length (batch_loop bs i files) = (length files - i + bs - 1) div bs"
proof (induction bs i files rule: batch_loop.induct)
  case (1 bs i files)
  show ?case
  proof (cases "i < length files")
    case True
    with 1 have IH: "length (batch_loop bs (i + bs) files) = (length files - (i + bs) + bs - 1) div bs"
      by simp
    have "(length files - i + bs - 1) div bs = Suc ((length files - (i + bs) + bs - 1) div bs)"
    proof (cases "i + bs \<le> length files")
      case le: True
      define m where "m = length files - (i + bs) + bs - 1"
      from le 1(2) have "length files - i + bs - 1 = m + bs"
        unfolding m_def by simp
      moreover have "(m + bs) div bs = Suc (m div bs)"
        using 1(2) by simp
      ultimately show ?thesis unfolding m_def by simp
    next
      case gt: False
      then have a: "length files - (i + bs) + bs - 1 < bs" using 1(2) by arith
      have b: "bs \<le> length files - i + bs - 1" using True by arith
      have c: "length files - i + bs - 1 < 2 * bs" using gt 1(2) by arith
      from b c have "(length files - i + bs - 1) div bs = 1"
        by (metis One_nat_def Suc_1 div_nat_eqI mult.commute mult_Suc_right nat_mult_1_right)
      with a show ?thesis by simp
    qed
    with IH True 1(2) show ?thesis
      by (subst batch_loop.simps) simp
  next
    case False
    then have "length files - i + bs - 1 < bs" using 1(2) by simp
    with False show ?thesis by (subst batch_loop.simps) simp
  qed
qed

lemma batch_loop_nth:
  "0 < bs \<Longrightarrow> j < length (batch_loop bs i files) \<Longrightarrow>
   batch_loop bs i files ! j = take bs (drop (i + j * bs) files)"
proof (induction bs i files arbitrary: j rule: batch_loop.induct)
  case (1 bs i files)
  from 1(3) have lt: "i < length files"
    by (subst (asm) batch_loop.simps) (simp split: if_splits)
  have unfold: "batch_loop bs i files = take bs (drop i files) # batch_loop bs (i + bs) files"
    using lt 1(2) by (subst batch_loop.simps) simp
  show ?case
  proof (cases j)
    case 0
    then show ?thesis using unfold by simp
  next
    case (Suc k)
    with 1(3) unfold have "k < length (batch_loop bs (i + bs) files)" by simp
    with 1(1)[of k] lt 1(2)
    have "batch_loop bs (i + bs) files ! k = take bs (drop (i + bs + k * bs) files)"
      by simp
    with Suc unfold show ?thesis by (simp add: ac_simps)
  qed
qed

lemma batch_count_pos: "0 < bs \<Longrightarrow> j < (n + bs - 1) div bs \<Longrightarrow> j * bs < (n::nat)"
proof -
  assume bs: "0 < bs" and j: "j < (n + bs - 1) div bs"
  from j have "Suc j \<le> (n + bs - 1) div bs" by simp
  then have "Suc j * bs \<le> n + bs - 1"
    using bs by (simp add: less_eq_div_iff_mult_less_eq)
  then show ?thesis using bs by simp
qed

lemma batch_count_upper: "0 < bs \<Longrightarrow> (n::nat) \<le> ((n + bs - 1) div bs) * bs"
proof -
  assume bs: "0 < bs"
  have "n + bs - 1 = ((n + bs - 1) div bs) * bs + (n + bs - 1) mod bs" by simp
  moreover have "(n + bs - 1) mod bs < bs" using bs by simp
  ultimately show ?thesis by arith
qed

lemma ceiling_div_nat:
  "0 < bs \<Longrightarrow> \<lceil>rat_of_nat n / rat_of_nat bs\<rceil> = int ((n + bs - 1) div bs)"
proof (cases "n = 0")
  case True
  assume "0 < bs" then show ?thesis using True by simp
next
  case False
  assume bs: "0 < bs"
  let ?c = "(n + bs - 1) div bs"
  have cpos: "0 < ?c" using bs False by (simp add: div_greater_zero_iff)
  then have "?c - 1 < ?c" by simp
  from batch_count_pos[OF bs this] have lo: "(?c - 1) * bs < n" .
  have hi: "n \<le> ?c * bs" by (rule batch_count_upper[OF bs])
  have bsr: "0 < rat_of_nat bs" using bs by simp
  have "rat_of_nat ((?c - 1) * bs) < rat_of_nat n" using lo by (simp only: of_nat_less_iff)
  then have a: "rat_of_nat (?c - 1) < rat_of_nat n / rat_of_nat bs"
    using bsr by (simp add: pos_less_divide_eq)
  have "rat_of_nat n \<le> rat_of_nat (?c * bs)" using hi by (simp only: of_nat_le_iff)
  then have b: "rat_of_nat n / rat_of_nat bs \<le> rat_of_nat ?c"
    using bsr by (simp add: pos_divide_le_eq)
  have c1: "rat_of_int (int ?c) - 1 = rat_of_nat (?c - 1)" using cpos by (simp add: of_nat_diff)
  show ?thesis
    by (rule ceiling_unique) (use a b c1 in simp_all)
qed

text \<open>
  Claim C6. For a batch size of at least 1, \<open>batch_files\<close> yields \<open>ceil(N / batch_size)\<close>
  groups; group \<open>j\<close> is the slice of the input from \<open>j * batch_size\<close> of length at most
  \<open>batch_size\<close> (so the groups are consecutive and do not overlap); every group but the last
  has exactly \<open>batch_size\<close> elements, the last has between 1 and \<open>batch_size\<close> (the
  remainder); the concatenation of the groups is the input; and 5 files with batch size 2
  give group sizes \<open>[2, 2, 1]\<close>.
\<close>

theorem batch_files_partition:
  assumes "1 \<le> batch_size cfg"
  shows "\<exists>gs. batch_files cfg files = Inr gs
    \<and> int (length gs) = \<lceil>rat_of_nat (length files) / rat_of_int (batch_size cfg)\<rceil>
    \<and> concat gs = files
    \<and> (\<forall>j < length gs. gs ! j = take (nat (batch_size cfg)) (drop (j * nat (batch_size cfg)) files))
    \<and> (\<forall>j. Suc j < length gs \<longrightarrow> int (length (gs ! j)) = batch_size cfg)
    \<and> (gs \<noteq> [] \<longrightarrow> 1 \<le> length (last gs) \<and> int (length (last gs)) \<le> batch_size cfg
          \<and> length (last gs) = length files - (length gs - 1) * nat (batch_size cfg))
    \<and> (length files = 5 \<and> batch_size cfg = 2 \<longrightarrow> map length gs = [2, 2, 1])"
proof -
  define bs where "bs = nat (batch_size cfg)"
  define gs where "gs = batch_loop bs 0 files"
  define n where "n = length files"
  have bs: "0 < bs" and bsi: "batch_size cfg = int bs" using assms by (simp_all add: bs_def)
  have run: "batch_files cfg files = Inr gs"
    using assms by (simp add: batch_files_def gs_def bs_def)
  have len: "length gs = (n + bs - 1) div bs"
    using batch_loop_length[OF bs, of 0 files] by (simp add: gs_def n_def)
  have cnt: "int (length gs) = \<lceil>rat_of_nat n / rat_of_int (batch_size cfg)\<rceil>"
    using ceiling_div_nat[OF bs, of n] by (simp add: len bsi)
  have cat: "concat gs = files"
    using batch_loop_concat[OF bs, of 0 files] by (simp add: gs_def)
  have nth: "gs ! j = take bs (drop (j * bs) files)" if "j < length gs" for j
    using batch_loop_nth[OF bs, of j 0 files] that by (simp add: gs_def)
  have full: "length (gs ! j) = bs" if "Suc j < length gs" for j
  proof -
    from that have "Suc j * bs < n" using batch_count_pos[OF bs, of "Suc j" n] by (simp add: len)
    then have "bs \<le> n - j * bs" by simp
    moreover have "j < length gs" using that by simp
    ultimately show ?thesis by (simp add: nth n_def)
  qed
  have lst: "1 \<le> length (last gs) \<and> length (last gs) \<le> bs
      \<and> length (last gs) = n - (length gs - 1) * bs" if "gs \<noteq> []"
  proof -
    from that have pos: "0 < length gs" by simp
    then have j: "length gs - 1 < length gs" by simp
    have l: "last gs = gs ! (length gs - 1)" using that by (simp add: last_conv_nth)
    have lo: "(length gs - 1) * bs < n"
      using batch_count_pos[OF bs, of "length gs - 1" n] j by (simp add: len)
    have hi: "n \<le> length gs * bs" using batch_count_upper[OF bs, of n] by (simp add: len)
    have "length gs * bs = (length gs - 1) * bs + bs"
      using pos by (metis Suc_diff_1 mult_Suc add.commute)
    with hi have "n - (length gs - 1) * bs \<le> bs" by simp
    then have "length (last gs) = n - (length gs - 1) * bs"
      using nth[OF j] by (simp add: l n_def)
    with lo \<open>n - (length gs - 1) * bs \<le> bs\<close> show ?thesis by simp
  qed
  have ex: "map length gs = [2, 2, 1]" if "n = 5" "bs = 2"
  proof -
    have l3: "length gs = 3" using that by (simp add: len)
    have "length (gs ! 0) = 2" "length (gs ! 1) = 2" "length (gs ! 2) = 1"
      using nth[of 0] nth[of 1] nth[of 2] l3 that by (simp_all add: n_def)
    then show ?thesis using l3
      by (auto simp: list_eq_iff_nth_eq less_Suc_eq numeral_3_eq_3 numeral_2_eq_2)
  qed
  have c1: "\<forall>j < length gs. gs ! j = take (nat (batch_size cfg)) (drop (j * nat (batch_size cfg)) files)"
    using nth by (simp add: bsi)
  have c2: "\<forall>j. Suc j < length gs \<longrightarrow> int (length (gs ! j)) = batch_size cfg"
    using full by (simp only: bsi) simp
  have c3: "gs \<noteq> [] \<longrightarrow> 1 \<le> length (last gs) \<and> int (length (last gs)) \<le> batch_size cfg
          \<and> length (last gs) = length files - (length gs - 1) * nat (batch_size cfg)"
  proof
    assume "gs \<noteq> []"
    from lst[OF this] show "1 \<le> length (last gs) \<and> int (length (last gs)) \<le> batch_size cfg
          \<and> length (last gs) = length files - (length gs - 1) * nat (batch_size cfg)"
      by (simp add: bsi n_def)
  qed
  have c4: "length files = 5 \<and> batch_size cfg = 2 \<longrightarrow> map length gs = [2, 2, 1]"
    using ex by (simp add: bsi n_def)
  from run cnt[unfolded n_def] cat c1 c2 c3 c4 show ?thesis
    by (intro exI[of _ gs] conjI)
qed

theorem batch_files_partition_witness:
  "1 \<le> batch_size (folder_config 2 False)
   \<and> batch_files (folder_config 2 False) [''a'', ''b'', ''c'', ''d'', ''e'']
       = Inr [[''a'', ''b''], [''c'', ''d''], [''e'']]
   \<and> (\<exists>gs. batch_files (folder_config 2 False) [''a'', ''b'', ''c'', ''d'', ''e''] = Inr gs
    \<and> int (length gs) = \<lceil>rat_of_nat (length [''a'', ''b'', ''c'', ''d'', ''e''])
                          / rat_of_int (batch_size (folder_config 2 False))\<rceil>
    \<and> concat gs = [''a'', ''b'', ''c'', ''d'', ''e'']
    \<and> (\<forall>j < length gs. gs ! j = take (nat (batch_size (folder_config 2 False)))
          (drop (j * nat (batch_size (folder_config 2 False))) [''a'', ''b'', ''c'', ''d'', ''e'']))
    \<and> (\<forall>j. Suc j < length gs \<longrightarrow> int (length (gs ! j)) = batch_size (folder_config 2 False))
    \<and> (gs \<noteq> [] \<longrightarrow> 1 \<le> length (last gs)
          \<and> int (length (last gs)) \<le> batch_size (folder_config 2 False)
          \<and> length (last gs) = length [''a'', ''b'', ''c'', ''d'', ''e'']
               - (length gs - 1) * nat (batch_size (folder_config 2 False)))
    \<and> (length [''a'', ''b'', ''c'', ''d'', ''e''] = 5 \<and> batch_size (folder_config 2 False) = 2
          \<longrightarrow> map length gs = [2, 2, 1]))"
proof -
  have h: "1 \<le> batch_size (folder_config 2 False)" by simp
  have e: "batch_files (folder_config 2 False) [''a'', ''b'', ''c'', ''d'', ''e'']
       = Inr [[''a'', ''b''], [''c'', ''d''], [''e'']]"
    by (simp add: batch_files_def batch_loop.simps)
  from h e batch_files_partition[OF h, of "[''a'', ''b'', ''c'', ''d'', ''e'']"] show ?thesis
    by (intro conjI)
qed

section \<open>Properties of output-path resolution\<close>

lemma get_extension_supported:
  "output_format \<in> {''md'', ''txt'', ''json'', ''srt'', ''vtt''} \<Longrightarrow>
   get_extension_for_format output_format = output_format"
  by (auto simp: get_extension_for_format_def format_extensions_def)

lemma get_extension_fallback:
  "output_format \<notin> {''md'', ''txt'', ''json'', ''srt'', ''vtt''} \<Longrightarrow>
   get_extension_for_format output_format = ''txt''"
  by (simp add: get_extension_for_format_def format_extensions_def)

text \<open>
  Claim C7. Output-path resolution: with an explicit output file and a single audio-file
  source configured, the result is that file, whatever the format tag and the output folder;
  otherwise with an output folder configured it is
  \<open>{output_folder}/{source_stem}_transcription.{ext}\<close>; otherwise it is
  \<open>{source_parent}/{source_stem}_transcription.{ext}\<close>, with \<open>ext\<close> the extension mapped from
  the format tag.
\<close>

theorem get_output_path_precedence:
  "(transcription_file cfg = Some tf \<and> audio_file cfg \<noteq> None
      \<longrightarrow> get_output_path cfg audio_path output_format = tf)
   \<and> ((transcription_file cfg = None \<or> audio_file cfg = None) \<and> transcribe_folder cfg = Some d
      \<longrightarrow> get_output_path cfg audio_path output_format
          = path_join d (stem audio_path @ ''_transcription.''
                         @ get_extension_for_format output_format))
   \<and> ((transcription_file cfg = None \<or> audio_file cfg = None) \<and> transcribe_folder cfg = None
      \<longrightarrow> get_output_path cfg audio_path output_format
          = path_join (parent audio_path) (stem audio_path @ ''_transcription.''
                         @ get_extension_for_format output_format))"
  by (auto simp: get_output_path_def Let_def)

lemma stem_talk: "stem (Path ''/'' [''in'', ''talk.mp3'']) = ''talk''"
  by (simp add: stem_def name_def rfind_def Let_def)

lemma join_out: "path_join (Path ''/'' [''out'']) ''talk_transcription.json''
   = Path ''/'' [''out'', ''talk_transcription.json'']"
  by (simp add: path_join_def parse_parts_def)

lemma join_in: "path_join (Path ''/'' [''in'']) ''talk_transcription.md''
   = Path ''/'' [''in'', ''talk_transcription.md'']"
  by (simp add: path_join_def parse_parts_def)

theorem get_output_path_precedence_witness:
  "get_output_path (file_config (Some (Path ''/'' [''out''])) (Some (Path [] [''custom_output.md''])))
       (Path ''/'' [''in'', ''talk.mp3'']) ''json''
     = Path [] [''custom_output.md'']
   \<and> get_output_path (file_config (Some (Path ''/'' [''out''])) None)
       (Path ''/'' [''in'', ''talk.mp3'']) ''json''
     = Path ''/'' [''out'', ''talk_transcription.json'']
   \<and> get_output_path (file_config None None) (Path ''/'' [''in'', ''talk.mp3'']) ''md''
     = Path ''/'' [''in'', ''talk_transcription.md'']"
proof -
  let ?p = "Path ''/'' [''in'', ''talk.mp3'']"
  let ?d = "Path ''/'' [''out'']"
  let ?f = "Path [] [''custom_output.md'']"
  have a: "get_output_path (file_config (Some ?d) (Some ?f)) ?p ''json'' = ?f"
    using get_output_path_precedence[of "file_config (Some ?d) (Some ?f)" ?f ?p "''json''" ?d]
    by simp
  have b: "get_output_path (file_config (Some ?d) None) ?p ''json''
      = Path ''/'' [''out'', ''talk_transcription.json'']"
    using get_output_path_precedence[of "file_config (Some ?d) None" ?f ?p "''json''" ?d]
    by (simp add: stem_talk get_extension_supported join_out)
  have c: "get_output_path (file_config None None) ?p ''md''
      = Path ''/'' [''in'', ''talk_transcription.md'']"
    using get_output_path_precedence[of "file_config None None" ?f ?p "''md''" ?d]
    by (simp add: stem_talk get_extension_supported parent_def join_in)
  from a b c show ?thesis by (intro conjI)
qed

section \<open>Properties of discovery\<close>

lemma contains_Nil [simp]: "\<not> contains [] rel x"
  by (auto elim: contains.cases)

lemma contains_Cons:
  "contains (Entry n y # es) rel x \<longleftrightarrow>
     (rel = [n] \<and> x = y)
     \<or> (\<exists>sub rel'. y = Directory sub \<and> rel = n # rel' \<and> contains sub rel' x)
     \<or> contains es rel x"
  (is "?L \<longleftrightarrow> ?R")
proof
  assume ?L
  then show ?R
  proof (cases rule: contains.cases)
    case (child m)
    then show ?thesis by (auto intro: contains.child)
  next
    case (descendant m sub rel')
    then show ?thesis by (auto intro: contains.descendant)
  qed
next
  assume ?R
  then show ?L
  proof (elim disjE exE conjE)
    assume "rel = [n]" "x = y"
    then show ?L by (auto intro: contains.child)
  next
    fix sub rel'
    assume "y = Directory sub" "rel = n # rel'" "contains sub rel' x"
    then show ?L using contains.descendant[of n sub "Entry n y # es" rel' x] by simp
  next
    assume "contains es rel x"
    then show ?L
    proof (cases rule: contains.cases)
      case (child m)
      then show ?thesis using contains.child[of m x "Entry n y # es"] by simp
    next
      case (descendant m sub rel')
      then show ?thesis using contains.descendant[of m sub "Entry n y # es" rel' x] by simp
    qed
  qed
qed

lemma contains_nonempty: "contains es rel x \<Longrightarrow> rel \<noteq> []"
  by (auto elim: contains.cases)

lemma glob_rec_set:
  "set (glob_rec d es) = {(Path (anchor d) (parts d @ rel), x) | rel x. contains es rel x}"
proof (induction d es rule: glob_rec.induct)
  case (1 d)
  show ?case by simp
next
  case (2 d n y es)
  have sub: "set (case y of Directory sub \<Rightarrow> glob_rec (make_child_relpath d n) sub | _ \<Rightarrow> [])
      = {(Path (anchor d) (parts d @ n # rel'), x) | rel' x sub. y = Directory sub \<and> contains sub rel' x}"
  proof (cases y)
    case (Directory sub)
    with 2(1)[of sub] show ?thesis by (auto simp: make_child_relpath_def)
  qed auto
  show ?case
    unfolding glob_rec.simps set_simps set_append sub 2(2)
    by (auto simp: contains_Cons make_child_relpath_def)
qed

lemma glob_star_set:
  "set (glob_star d es)
   = {(Path (anchor d) (parts d @ rel), x) | rel x. contains es rel x \<and> length rel = 1}"
proof (induction d es rule: glob_star.induct)
  case (1 d)
  show ?case by simp
next
  case (2 d n y es)
  show ?case
    unfolding glob_star.simps set_simps 2
    by (auto simp: contains_Cons make_child_relpath_def dest: contains_nonempty)
qed

lemma glob_set:
  "set (glob (if recursive cfg then ''**/*'' else ''*'') d es)
   = {(Path (anchor d) (parts d @ rel), x) | rel x.
        contains es rel x \<and> (recursive cfg \<or> length rel = 1)}"
  by (auto simp: glob_def glob_rec_set glob_star_set)

lemma contains_first_name: "contains es rel x \<Longrightarrow> hd rel \<in> entry_name ` set es"
  by (induction rule: contains.induct) force+

lemma glob_rec_distinct: "distinct_names es \<Longrightarrow> distinct (map fst (glob_rec d es))"
proof (induction d es rule: glob_rec.induct)
  case (1 d)
  show ?case by simp
next
  case (2 d n y es)
  let ?c = "make_child_relpath d n"
  let ?sub = "case y of Directory sub \<Rightarrow> glob_rec ?c sub | _ \<Rightarrow> []"
  from 2(3) have fresh: "n \<notin> entry_name ` set es" and rest: "distinct_names es" by simp_all
  have dsub: "distinct (map fst ?sub)"
  proof (cases y)
    case (Directory sub)
    with 2(3) have "distinct_names sub" by simp
    with 2(1)[OF Directory] Directory show ?thesis by simp
  qed simp_all
  have drest: "distinct (map fst (glob_rec d es))" using 2(2) rest by simp
  have subform: "\<exists>rel'. rel' \<noteq> [] \<and> p = Path (anchor d) (parts d @ n # rel')"
    if "p \<in> fst ` set ?sub" for p
  proof (cases y)
    case (Directory sub)
    with that obtain x where "(p, x) \<in> set (glob_rec ?c sub)" by auto
    then obtain rel' where "contains sub rel' x" "p = Path (anchor ?c) (parts ?c @ rel')"
      by (auto simp: glob_rec_set)
    then show ?thesis
      using contains_nonempty[of sub rel' x] by (auto simp: make_child_relpath_def)
  qed (use that in simp_all)
  have restform: "\<exists>rel. hd rel \<noteq> n \<and> rel \<noteq> [] \<and> p = Path (anchor d) (parts d @ rel)"
    if "p \<in> fst ` set (glob_rec d es)" for p
  proof -
    from that obtain x where "(p, x) \<in> set (glob_rec d es)" by auto
    then obtain rel where r: "contains es rel x" "p = Path (anchor d) (parts d @ rel)"
      by (auto simp: glob_rec_set)
    from contains_first_name[OF r(1)] fresh have "hd rel \<noteq> n" by auto
    with r contains_nonempty[OF r(1)] show ?thesis by auto
  qed
  have a: "?c \<notin> fst ` set ?sub"
  proof
    assume "?c \<in> fst ` set ?sub"
    from subform[OF this] show False by (auto simp: make_child_relpath_def)
  qed
  have b: "?c \<notin> fst ` set (glob_rec d es)"
  proof
    assume "?c \<in> fst ` set (glob_rec d es)"
    from restform[OF this] show False by (auto simp: make_child_relpath_def)
  qed
  have c: "fst ` set ?sub \<inter> fst ` set (glob_rec d es) = {}"
  proof (rule ccontr)
    assume "fst ` set ?sub \<inter> fst ` set (glob_rec d es) \<noteq> {}"
    then obtain p where p1: "p \<in> fst ` set ?sub" and p2: "p \<in> fst ` set (glob_rec d es)" by auto
    from subform[OF p1] restform[OF p2] show False by auto
  qed
  show ?case
    using a b c dsub drest by (simp del: distinct_names.simps)
qed

lemma glob_star_distinct: "distinct_names es \<Longrightarrow> distinct (map fst (glob_star d es))"
proof (induction d es rule: glob_star.induct)
  case (1 d)
  show ?case by simp
next
  case (2 d n y es)
  from 2(2) have fresh: "n \<notin> entry_name ` set es" and rest: "distinct_names es" by simp_all
  have "make_child_relpath d n \<notin> fst ` set (glob_star d es)"
  proof
    assume "make_child_relpath d n \<in> fst ` set (glob_star d es)"
    then obtain x where "(make_child_relpath d n, x) \<in> set (glob_star d es)" by auto
    then obtain rel where r: "contains es rel x" "length rel = 1"
        "make_child_relpath d n = Path (anchor d) (parts d @ rel)"
      by (auto simp: glob_star_set)
    from r(3) have "rel = [n]" by (simp add: make_child_relpath_def)
    with contains_first_name[OF r(1)] fresh show False by simp
  qed
  with 2(1)[OF rest] show ?case by simp
qed

lemma glob_distinct: "distinct_names es \<Longrightarrow> distinct (map fst (glob pattern d es))"
  by (simp add: glob_def glob_rec_distinct glob_star_distinct)

lemma path_key_inj: "path_key p = path_key q \<Longrightarrow> p = q"
  by (cases p, cases q) (simp add: path_key_def)

lemma find_audio_files_set:
  "set (find_audio_files cfg folder tree)
   = {Path (anchor folder) (parts folder @ rel) | rel.
        contains tree rel RegularFile \<and> (recursive cfg \<or> length rel = 1)
        \<and> lower (suffix (Path (anchor folder) (parts folder @ rel))) \<in> supported_extensions}"
proof -
  let ?g = "glob (if recursive cfg then ''**/*'' else ''*'') folder tree"
  have "set (find_audio_files cfg folder tree)
      = fst ` {(p, x). (p, x) \<in> set ?g \<and> is_file x \<and> is_audio_file p}"
    by (auto simp: find_audio_files_def Let_def)
  also have "\<dots> = {p. (p, RegularFile) \<in> set ?g \<and> is_audio_file p}"
    by (force simp: is_file_def)
  also have "\<dots> = {Path (anchor folder) (parts folder @ rel) | rel.
        contains tree rel RegularFile \<and> (recursive cfg \<or> length rel = 1)
        \<and> lower (suffix (Path (anchor folder) (parts folder @ rel))) \<in> supported_extensions}"
    unfolding glob_set is_audio_file_def by auto
  finally show ?thesis .
qed

lemma find_audio_files_sorted: "sorted (map path_key (find_audio_files cfg folder tree))"
  by (simp add: find_audio_files_def Let_def)

lemma find_audio_files_distinct:
  "distinct_names tree \<Longrightarrow> distinct (find_audio_files cfg folder tree)"
proof -
  assume "distinct_names tree"
  then have "distinct (map fst (glob (if recursive cfg then ''**/*'' else ''*'') folder tree))"
    by (rule glob_distinct)
  then show ?thesis
    by (simp add: find_audio_files_def Let_def distinct_map_filter)
qed

lemma sorted_key_unique:
  assumes "sorted (map path_key xs)" "distinct xs" "sorted (map path_key ys)" "distinct ys"
    and "set xs = set ys"
  shows "xs = ys"
proof -
  have inj: "inj_on path_key A" for A by (auto simp: inj_on_def dest: path_key_inj)
  have "map path_key xs = map path_key ys"
  proof (rule sorted_distinct_set_unique)
    show "distinct (map path_key xs)" using assms(2) inj by (simp add: distinct_map)
    show "distinct (map path_key ys)" using assms(4) inj by (simp add: distinct_map)
    show "set (map path_key xs) = set (map path_key ys)" using assms(5) by simp
  qed (use assms in simp_all)
  then show ?thesis using inj[of UNIV] by (simp add: inj_map_eq_map)
qed

lemma example_flat:
  "find_audio_files (folder_config 1 r) (Path ''/'' [''in'']) flat_tree
     = [Path ''/'' [''in'', ''a.mp3''], Path ''/'' [''in'', ''b.wav'']]"
  by (simp add: find_audio_files_def glob_def is_file_def is_audio_file_def suffix_def name_def
      rfind_def lower_def lower_char_def supported_extensions_def make_child_relpath_def
      path_key_def Let_def)

lemma example_nested_shallow:
  "find_audio_files (folder_config 1 False) (Path ''/'' [''in'']) nested_tree
     = [Path ''/'' [''in'', ''a.mp3''], Path ''/'' [''in'', ''b.wav'']]"
  by (simp add: find_audio_files_def glob_def is_file_def is_audio_file_def suffix_def name_def
      rfind_def lower_def lower_char_def supported_extensions_def make_child_relpath_def
      path_key_def Let_def)

lemma example_nested_recursive:
  "find_audio_files (folder_config 1 True) (Path ''/'' [''in'']) nested_tree
     = [Path ''/'' [''in'', ''a.mp3''], Path ''/'' [''in'', ''b.wav''],
        Path ''/'' [''in'', ''sub'', ''d.m4a'']]"
  by (simp add: find_audio_files_def glob_def is_file_def is_audio_file_def suffix_def name_def
      rfind_def lower_def lower_char_def supported_extensions_def make_child_relpath_def
      path_key_def Let_def)

text \<open>
  Claim C8. For a directory source, discovery returns exactly the contained entries that are
  files and whose lower-cased extension is a recognised audio extension, immediate children
  only when not recursive and all descendants when recursive, sorted by path; the result
  has no duplicates and does not depend on the order in which the system lists a directory.
  A flat folder with \<open>a.mp3\<close>, \<open>b.wav\<close>, \<open>c.txt\<close> gives \<open>[a.mp3, b.wav]\<close>, and a nested
  \<open>sub/d.m4a\<close> is found only when recursive.
\<close>

theorem find_audio_files_discovery:
  "(audio_file cfg = None \<and> audio_folder cfg = Some folder
      \<longrightarrow> discover_audio_files cfg tree = Inr (find_audio_files cfg folder tree))
   \<and> set (find_audio_files cfg folder tree)
     = {Path (anchor folder) (parts folder @ rel) | rel.
          contains tree rel RegularFile \<and> (recursive cfg \<or> length rel = 1)
          \<and> lower (suffix (Path (anchor folder) (parts folder @ rel))) \<in> supported_extensions}
   \<and> sorted (map path_key (find_audio_files cfg folder tree))
   \<and> (distinct_names tree \<longrightarrow> distinct (find_audio_files cfg folder tree))
   \<and> (distinct_names tree \<and> distinct_names tree'
        \<and> (\<forall>rel x. contains tree' rel x = contains tree rel x)
      \<longrightarrow> find_audio_files cfg folder tree' = find_audio_files cfg folder tree)
   \<and> find_audio_files (folder_config 1 False) (Path ''/'' [''in'']) flat_tree
     = [Path ''/'' [''in'', ''a.mp3''], Path ''/'' [''in'', ''b.wav'']]
   \<and> find_audio_files (folder_config 1 False) (Path ''/'' [''in'']) nested_tree
     = [Path ''/'' [''in'', ''a.mp3''], Path ''/'' [''in'', ''b.wav'']]
   \<and> find_audio_files (folder_config 1 True) (Path ''/'' [''in'']) nested_tree
     = [Path ''/'' [''in'', ''a.mp3''], Path ''/'' [''in'', ''b.wav''],
        Path ''/'' [''in'', ''sub'', ''d.m4a'']]"
proof -
  have det: "find_audio_files cfg folder tree' = find_audio_files cfg folder tree"
    if "distinct_names tree" "distinct_names tree'"
       "\<forall>rel x. contains tree' rel x = contains tree rel x"
  proof (rule sorted_key_unique)
    show "set (find_audio_files cfg folder tree') = set (find_audio_files cfg folder tree)"
      unfolding find_audio_files_set using that(3) by simp
  qed (use that in \<open>simp_all add: find_audio_files_sorted find_audio_files_distinct\<close>)
  have disc: "audio_file cfg = None \<and> audio_folder cfg = Some folder
      \<longrightarrow> discover_audio_files cfg tree = Inr (find_audio_files cfg folder tree)"
    by (simp add: discover_audio_files_def)
  have dis: "distinct_names tree \<longrightarrow> distinct (find_audio_files cfg folder tree)"
    by (simp add: find_audio_files_distinct)
  have det': "distinct_names tree \<and> distinct_names tree'
        \<and> (\<forall>rel x. contains tree' rel x = contains tree rel x)
      \<longrightarrow> find_audio_files cfg folder tree' = find_audio_files cfg folder tree"
    using det by blast
  from disc find_audio_files_set[of cfg folder tree] find_audio_files_sorted[of cfg folder tree]
    dis det' example_flat[of False] example_nested_shallow example_nested_recursive
  show ?thesis by (intro conjI)
qed

theorem find_audio_files_discovery_witness:
  "audio_file (folder_config 1 True) = None
   \<and> audio_folder (folder_config 1 True) = Some (Path ''/'' [''in''])
   \<and> distinct_names nested_tree
   \<and> discover_audio_files (folder_config 1 True) nested_tree
     = Inr [Path ''/'' [''in'', ''a.mp3''], Path ''/'' [''in'', ''b.wav''],
            Path ''/'' [''in'', ''sub'', ''d.m4a'']]
   \<and> distinct (find_audio_files (folder_config 1 True) (Path ''/'' [''in'']) nested_tree)"
proof -
  have h: "distinct_names nested_tree" by simp
  from find_audio_files_discovery[of "folder_config 1 True" "Path ''/'' [''in'']" nested_tree nested_tree]
  have a: "discover_audio_files (folder_config 1 True) nested_tree
      = Inr (find_audio_files (folder_config 1 True) (Path ''/'' [''in'']) nested_tree)"
    and b: "distinct (find_audio_files (folder_config 1 True) (Path ''/'' [''in'']) nested_tree)"
    and c: "find_audio_files (folder_config 1 True) (Path ''/'' [''in'']) nested_tree
     = [Path ''/'' [''in'', ''a.mp3''], Path ''/'' [''in'', ''b.wav''],
        Path ''/'' [''in'', ''sub'', ''d.m4a'']]"
    using h by simp_all
  from a c have d: "discover_audio_files (folder_config 1 True) nested_tree
     = Inr [Path ''/'' [''in'', ''a.mp3''], Path ''/'' [''in'', ''b.wav''],
            Path ''/'' [''in'', ''sub'', ''d.m4a'']]" by simp
  have e: "audio_file (folder_config 1 True) = None
     \<and> audio_folder (folder_config 1 True) = Some (Path ''/'' [''in''])" by simp
  from e h d b show ?thesis by (intro conjI) simp_all
qed

end
